theory Spec2Isabelle
  imports Main "HOL-Library.Word"
begin

unbundle bit_operations_syntax

section \<open>Values of the JavaScript runtime\<close>

text \<open>
  \<^verbatim>\<open>lib/security/encryption.js\<close> works on two kinds of data: JavaScript strings, which are
  sequences of 16-bit UTF-16 code units, and \<^verbatim>\<open>Buffer\<close>s, which are sequences of bytes.
\<close>

type_synonym byte = "8 word"
type_synonym jsstring = "16 word list"
type_synonym buffer = "byte list"

text \<open>A string literal of the source, written with Latin-1 characters.\<close>

definition js :: "string \<Rightarrow> jsstring" where
  "js s = map (\<lambda>c. of_nat (of_char c)) s"

text \<open>The exceptions that \<^verbatim>\<open>encrypt\<close> and \<^verbatim>\<open>decrypt\<close> can throw, named by their Node.js codes.
  \<^verbatim>\<open>ERR_INVALID_ARG_TYPE\<close> is the \<^verbatim>\<open>TypeError\<close> of \<^verbatim>\<open>Buffer.from(undefined, "hex")\<close>;
  \<^verbatim>\<open>ERR_CRYPTO_INVALID_IV\<close> and \<^verbatim>\<open>ERR_CRYPTO_INVALID_KEYLEN\<close> come from
  \<^verbatim>\<open>createCipheriv\<close>/\<^verbatim>\<open>createDecipheriv\<close>; \<^verbatim>\<open>ERR_CRYPTO_INVALID_AUTH_TAG\<close> comes from
  \<^verbatim>\<open>setAuthTag\<close>; \<^verbatim>\<open>UnableToAuthenticate\<close> is the error "Unsupported state or unable to
  authenticate data" of \<^verbatim>\<open>decipher.final()\<close>.\<close>

datatype error =
    ERR_INVALID_ARG_TYPE
  | ERR_CRYPTO_INVALID_IV
  | ERR_CRYPTO_INVALID_KEYLEN
  | ERR_CRYPTO_INVALID_AUTH_TAG
  | UnableToAuthenticate

subsection \<open>\<^verbatim>\<open>String.prototype.split\<close>, \<^verbatim>\<open>Array.prototype.join\<close>, \<^verbatim>\<open>includes\<close>\<close>

definition colon :: "16 word" where
  "colon = 0x3A"

text \<open>\<^verbatim>\<open>s.split(sep)\<close> for a one-unit separator: the empty string gives one empty segment.\<close>

fun split :: "16 word \<Rightarrow> jsstring \<Rightarrow> jsstring list" where
  "split sep [] = [[]]"
| "split sep (x # xs) =
     (if x = sep then [] # split sep xs
      else (case split sep xs of
              [] \<Rightarrow> [[x]]
            | seg # segs \<Rightarrow> (x # seg) # segs))"

fun join :: "16 word \<Rightarrow> jsstring list \<Rightarrow> jsstring" where
  "join sep [] = []"
| "join sep [x] = x"
| "join sep (x # y # ys) = x @ sep # join sep (y # ys)"

definition string_includes :: "jsstring \<Rightarrow> 16 word \<Rightarrow> bool" where
  "string_includes s c = (c \<in> set s)"

text \<open>Array destructuring \<^verbatim>\<open>const [a, b, c] = arr\<close>: a missing element is \<^verbatim>\<open>undefined\<close>.\<close>

fun element :: "'a list \<Rightarrow> nat \<Rightarrow> 'a option" where
  "element [] n = None"
| "element (x # xs) 0 = Some x"
| "element (x # xs) (Suc n) = element xs n"

subsection \<open>Hex encoding: \<^verbatim>\<open>buf.toString("hex")\<close> and \<^verbatim>\<open>Buffer.from(s, "hex")\<close>\<close>

definition hex_digit :: "nat \<Rightarrow> 16 word" where
  "hex_digit n = (if n < 10 then of_nat (48 + n) else of_nat (87 + n))"

fun toString_hex :: "buffer \<Rightarrow> jsstring" where
  "toString_hex [] = []"
| "toString_hex (b # bs) =
     hex_digit (unat b div 16) # hex_digit (unat b mod 16) # toString_hex bs"

text \<open>The value of a hex digit, upper or lower case; \<open>None\<close> for any other code unit.\<close>

definition unhex :: "16 word \<Rightarrow> nat option" where
  "unhex c =
     (let n = unat c in
      if 48 \<le> n \<and> n \<le> 57 then Some (n - 48)
      else if 65 \<le> n \<and> n \<le> 70 then Some (n - 55)
      else if 97 \<le> n \<and> n \<le> 102 then Some (n - 87)
      else None)"

text \<open>Node's hex decoder reads pairs of digits and stops at the first pair that is not
  two hex digits; an odd last character is dropped. It never throws on a string.\<close>

fun hex_decode :: "jsstring \<Rightarrow> buffer" where
  "hex_decode (a # b # cs) =
     (case (unhex a, unhex b) of
        (Some h, Some l) \<Rightarrow> of_nat (16 * h + l) # hex_decode cs
      | _ \<Rightarrow> [])"
| "hex_decode cs = []"

text \<open>\<^verbatim>\<open>Buffer.from(x, "hex")\<close> where \<open>x\<close> may be \<^verbatim>\<open>undefined\<close>.\<close>

definition Buffer_from_hex :: "jsstring option \<Rightarrow> error + buffer" where
  "Buffer_from_hex x =
     (case x of None \<Rightarrow> Inl ERR_INVALID_ARG_TYPE | Some s \<Rightarrow> Inr (hex_decode s))"

subsection \<open>UTF-8: \<^verbatim>\<open>Buffer.from(s, "utf8")\<close> and \<^verbatim>\<open>buf.toString("utf8")\<close>\<close>

definition is_high_surrogate :: "16 word \<Rightarrow> bool" where
  "is_high_surrogate u = (0xD800 \<le> unat u \<and> unat u \<le> 0xDBFF)"

definition is_low_surrogate :: "16 word \<Rightarrow> bool" where
  "is_low_surrogate u = (0xDC00 \<le> unat u \<and> unat u \<le> 0xDFFF)"

text \<open>\<^verbatim>\<open>String.prototype.isWellFormed\<close>: no surrogate without its partner.\<close>

fun isWellFormed :: "jsstring \<Rightarrow> bool" where
  "isWellFormed [] = True"
| "isWellFormed (u # us) =
     (if is_high_surrogate u then
        (case us of [] \<Rightarrow> False | l # rest \<Rightarrow> is_low_surrogate l \<and> isWellFormed rest)
      else if is_low_surrogate u then False
      else isWellFormed us)"

text \<open>The UTF-8 bytes of one code point \<open>cp < 0x110000\<close>.\<close>

definition utf8_bytes :: "nat \<Rightarrow> buffer" where
  "utf8_bytes cp =
     (if cp < 0x80 then [of_nat cp]
      else if cp < 0x800 then [of_nat (0xC0 + cp div 64), of_nat (0x80 + cp mod 64)]
      else if cp < 0x10000 then
        [of_nat (0xE0 + cp div 4096), of_nat (0x80 + cp div 64 mod 64), of_nat (0x80 + cp mod 64)]
      else
        [of_nat (0xF0 + cp div 262144), of_nat (0x80 + cp div 4096 mod 64),
         of_nat (0x80 + cp div 64 mod 64), of_nat (0x80 + cp mod 64)])"

text \<open>Encoding a string: a surrogate pair is one code point of four bytes, and a surrogate
  without its partner is written as U+FFFD (\<^verbatim>\<open>EF BF BD\<close>).\<close>

fun utf8_encode :: "jsstring \<Rightarrow> buffer" where
  "utf8_encode [] = []"
| "utf8_encode (u # us) =
     (if is_high_surrogate u then
        (case us of
           [] \<Rightarrow> utf8_bytes 0xFFFD
         | l # rest \<Rightarrow>
             if is_low_surrogate l then
               utf8_bytes (0x10000 + (unat u - 0xD800) * 1024 + (unat l - 0xDC00)) @ utf8_encode rest
             else utf8_bytes 0xFFFD @ utf8_encode us)
      else if is_low_surrogate u then utf8_bytes 0xFFFD @ utf8_encode us
      else utf8_bytes (unat u) @ utf8_encode us)"

text \<open>The UTF-16 code units of one code point.\<close>

definition utf16_units :: "nat \<Rightarrow> jsstring" where
  "utf16_units cp =
     (if cp < 0x10000 then [of_nat cp]
      else [of_nat (0xD800 + (cp - 0x10000) div 1024), of_nat (0xDC00 + (cp - 0x10000) mod 1024)])"

definition continuation :: "nat \<Rightarrow> nat \<Rightarrow> byte \<Rightarrow> bool" where
  "continuation lo hi b = (lo \<le> unat b \<and> unat b \<le> hi)"

text \<open>Decoding bytes to a string. An ill-formed sequence gives U+FFFD for its longest
  prefix that begins a well-formed sequence, and decoding resumes after that prefix.\<close>

fun utf8_decode :: "buffer \<Rightarrow> jsstring" where
  "utf8_decode [] = []"
| "utf8_decode (b0 # bs) =
     (let n0 = unat b0 in
      if n0 < 0x80 then of_nat n0 # utf8_decode bs
      else if 0xC2 \<le> n0 \<and> n0 \<le> 0xDF then
        (case bs of
           [] \<Rightarrow> [0xFFFD]
         | b1 # bs1 \<Rightarrow>
             if continuation 0x80 0xBF b1 then
               utf16_units ((n0 - 0xC0) * 64 + (unat b1 - 0x80)) @ utf8_decode bs1
             else 0xFFFD # utf8_decode bs)
      else if 0xE0 \<le> n0 \<and> n0 \<le> 0xEF then
        (case bs of
           [] \<Rightarrow> [0xFFFD]
         | b1 # bs1 \<Rightarrow>
             if continuation (if n0 = 0xE0 then 0xA0 else 0x80) (if n0 = 0xED then 0x9F else 0xBF) b1 then
               (case bs1 of
                  [] \<Rightarrow> [0xFFFD]
                | b2 # bs2 \<Rightarrow>
                    if continuation 0x80 0xBF b2 then
                      utf16_units (((n0 - 0xE0) * 64 + (unat b1 - 0x80)) * 64 + (unat b2 - 0x80))
                        @ utf8_decode bs2
                    else 0xFFFD # utf8_decode bs1)
             else 0xFFFD # utf8_decode bs)
      else if 0xF0 \<le> n0 \<and> n0 \<le> 0xF4 then
        (case bs of
           [] \<Rightarrow> [0xFFFD]
         | b1 # bs1 \<Rightarrow>
             if continuation (if n0 = 0xF0 then 0x90 else 0x80) (if n0 = 0xF4 then 0x8F else 0xBF) b1 then
               (case bs1 of
                  [] \<Rightarrow> [0xFFFD]
                | b2 # bs2 \<Rightarrow>
                    if continuation 0x80 0xBF b2 then
                      (case bs2 of
                         [] \<Rightarrow> [0xFFFD]
                       | b3 # bs3 \<Rightarrow>
                           if continuation 0x80 0xBF b3 then
                             utf16_units ((((n0 - 0xF0) * 64 + (unat b1 - 0x80)) * 64
                                            + (unat b2 - 0x80)) * 64 + (unat b3 - 0x80))
                               @ utf8_decode bs3
                           else 0xFFFD # utf8_decode bs2)
                    else 0xFFFD # utf8_decode bs1)
             else 0xFFFD # utf8_decode bs)
      else 0xFFFD # utf8_decode bs)"

section \<open>AES-256 (FIPS 197), as \<^verbatim>\<open>node:crypto\<close> provides it\<close>

text \<open>The state is a list of sixteen bytes in column order: byte \<open>r + 4 * c\<close> is row \<open>r\<close> of
  column \<open>c\<close>.\<close>

definition sbox :: "byte list" where
  "sbox =
     [0x63, 0x7C, 0x77, 0x7B, 0xF2, 0x6B, 0x6F, 0xC5, 0x30, 0x01, 0x67, 0x2B, 0xFE, 0xD7, 0xAB, 0x76,
      0xCA, 0x82, 0xC9, 0x7D, 0xFA, 0x59, 0x47, 0xF0, 0xAD, 0xD4, 0xA2, 0xAF, 0x9C, 0xA4, 0x72, 0xC0,
      0xB7, 0xFD, 0x93, 0x26, 0x36, 0x3F, 0xF7, 0xCC, 0x34, 0xA5, 0xE5, 0xF1, 0x71, 0xD8, 0x31, 0x15,
      0x04, 0xC7, 0x23, 0xC3, 0x18, 0x96, 0x05, 0x9A, 0x07, 0x12, 0x80, 0xE2, 0xEB, 0x27, 0xB2, 0x75,
      0x09, 0x83, 0x2C, 0x1A, 0x1B, 0x6E, 0x5A, 0xA0, 0x52, 0x3B, 0xD6, 0xB3, 0x29, 0xE3, 0x2F, 0x84,
      0x53, 0xD1, 0x00, 0xED, 0x20, 0xFC, 0xB1, 0x5B, 0x6A, 0xCB, 0xBE, 0x39, 0x4A, 0x4C, 0x58, 0xCF,
      0xD0, 0xEF, 0xAA, 0xFB, 0x43, 0x4D, 0x33, 0x85, 0x45, 0xF9, 0x02, 0x7F, 0x50, 0x3C, 0x9F, 0xA8,
      0x51, 0xA3, 0x40, 0x8F, 0x92, 0x9D, 0x38, 0xF5, 0xBC, 0xB6, 0xDA, 0x21, 0x10, 0xFF, 0xF3, 0xD2,
      0xCD, 0x0C, 0x13, 0xEC, 0x5F, 0x97, 0x44, 0x17, 0xC4, 0xA7, 0x7E, 0x3D, 0x64, 0x5D, 0x19, 0x73,
      0x60, 0x81, 0x4F, 0xDC, 0x22, 0x2A, 0x90, 0x88, 0x46, 0xEE, 0xB8, 0x14, 0xDE, 0x5E, 0x0B, 0xDB,
      0xE0, 0x32, 0x3A, 0x0A, 0x49, 0x06, 0x24, 0x5C, 0xC2, 0xD3, 0xAC, 0x62, 0x91, 0x95, 0xE4, 0x79,
      0xE7, 0xC8, 0x37, 0x6D, 0x8D, 0xD5, 0x4E, 0xA9, 0x6C, 0x56, 0xF4, 0xEA, 0x65, 0x7A, 0xAE, 0x08,
      0xBA, 0x78, 0x25, 0x2E, 0x1C, 0xA6, 0xB4, 0xC6, 0xE8, 0xDD, 0x74, 0x1F, 0x4B, 0xBD, 0x8B, 0x8A,
      0x70, 0x3E, 0xB5, 0x66, 0x48, 0x03, 0xF6, 0x0E, 0x61, 0x35, 0x57, 0xB9, 0x86, 0xC1, 0x1D, 0x9E,
      0xE1, 0xF8, 0x98, 0x11, 0x69, 0xD9, 0x8E, 0x94, 0x9B, 0x1E, 0x87, 0xE9, 0xCE, 0x55, 0x28, 0xDF,
      0x8C, 0xA1, 0x89, 0x0D, 0xBF, 0xE6, 0x42, 0x68, 0x41, 0x99, 0x2D, 0x0F, 0xB0, 0x54, 0xBB, 0x16]"

definition SubByte :: "byte \<Rightarrow> byte" where
  "SubByte b = sbox ! unat b"

definition SubBytes :: "buffer \<Rightarrow> buffer" where
  "SubBytes s = map SubByte s"

definition ShiftRows :: "buffer \<Rightarrow> buffer" where
  "ShiftRows s = map (\<lambda>i. s ! i) [0, 5, 10, 15, 4, 9, 14, 3, 8, 13, 2, 7, 12, 1, 6, 11]"

text \<open>Multiplication by \<open>x\<close> in GF(2^8) modulo \<open>x^8 + x^4 + x^3 + x + 1\<close>.\<close>

definition xtime :: "byte \<Rightarrow> byte" where
  "xtime b = (if bit b 7 then push_bit 1 b XOR 0x1B else push_bit 1 b)"

fun MixColumn :: "buffer \<Rightarrow> buffer" where
  "MixColumn [a0, a1, a2, a3] =
     [xtime a0 XOR (xtime a1 XOR a1) XOR a2 XOR a3,
      a0 XOR xtime a1 XOR (xtime a2 XOR a2) XOR a3,
      a0 XOR a1 XOR xtime a2 XOR (xtime a3 XOR a3),
      (xtime a0 XOR a0) XOR a1 XOR a2 XOR xtime a3]"
| "MixColumn col = col"

definition MixColumns :: "buffer \<Rightarrow> buffer" where
  "MixColumns s = concat (map (\<lambda>c. MixColumn (take 4 (drop (4 * c) s))) [0..<4])"

definition AddRoundKey :: "buffer \<Rightarrow> buffer \<Rightarrow> buffer" where
  "AddRoundKey s k = map2 (XOR) s k"

definition Rcon :: "nat \<Rightarrow> byte" where
  "Rcon j = (xtime ^^ (j - 1)) 1"

definition RotWord :: "buffer \<Rightarrow> buffer" where
  "RotWord w = rotate1 w"

text \<open>The key schedule for a 32-byte key (\<open>Nk = 8\<close>, \<open>Nr = 14\<close>): sixty 4-byte words.\<close>

definition next_word :: "nat \<Rightarrow> buffer list \<Rightarrow> buffer" where
  "next_word i w =
     (let temp = w ! (i - 1) in
      map2 (XOR) (w ! (i - 8))
        (if i mod 8 = 0 then map2 (XOR) (SubBytes (RotWord temp)) [Rcon (i div 8), 0, 0, 0]
         else if i mod 8 = 4 then SubBytes temp
         else temp))"

definition KeyExpansion :: "buffer \<Rightarrow> buffer list" where
  "KeyExpansion key =
     fold (\<lambda>i w. w @ [next_word i w]) [8..<60] (map (\<lambda>i. take 4 (drop (4 * i) key)) [0..<8])"

definition round_key :: "buffer list \<Rightarrow> nat \<Rightarrow> buffer" where
  "round_key w r = concat (take 4 (drop (4 * r) w))"

definition Cipher :: "buffer \<Rightarrow> buffer \<Rightarrow> buffer" where
  "Cipher key blk =
     (let w = KeyExpansion key;
          s = fold (\<lambda>r s. AddRoundKey (MixColumns (ShiftRows (SubBytes s))) (round_key w r))
                [1..<14] (AddRoundKey blk (round_key w 0))
      in AddRoundKey (ShiftRows (SubBytes s)) (round_key w 14))"

section \<open>Galois/Counter Mode (NIST SP 800-38D)\<close>

type_synonym block = "128 word"

text \<open>Blocks are read from and written to bytes in big-endian order.\<close>

definition be_word :: "buffer \<Rightarrow> block" where
  "be_word bs = foldl (\<lambda>acc b. push_bit 8 acc OR ucast b) 0 bs"

definition be_bytes :: "block \<Rightarrow> buffer" where
  "be_bytes w = map (\<lambda>i. ucast (drop_bit (8 * (15 - i)) w)) [0..<16]"

definition CIPH :: "buffer \<Rightarrow> block \<Rightarrow> block" where
  "CIPH key X = be_word (Cipher key (be_bytes X))"

text \<open>Multiplication of blocks: bit \<open>i\<close> of the standard, counted from the left, is bit
  \<open>127 - i\<close> of the word.\<close>

definition gf_step :: "block \<Rightarrow> nat \<Rightarrow> block \<times> block \<Rightarrow> block \<times> block" where
  "gf_step X i ZV =
     (case ZV of (Z, V) \<Rightarrow>
        (if bit X (127 - i) then Z XOR V else Z,
         if bit V 0 then drop_bit 1 V XOR push_bit 120 0xE1 else drop_bit 1 V))"

definition gf_mult :: "block \<Rightarrow> block \<Rightarrow> block" where
  "gf_mult X Y = fst (fold (gf_step X) [0..<128] (0, Y))"

definition GHASH :: "block \<Rightarrow> block list \<Rightarrow> block" where
  "GHASH H Xs = foldl (\<lambda>Y X. gf_mult (Y XOR X) H) 0 Xs"

text \<open>A byte string cut into blocks, the last one filled with zero bits.\<close>

definition blocks :: "buffer \<Rightarrow> block list" where
  "blocks bs =
     map (\<lambda>i. be_word (take 16 (drop (16 * i) bs @ replicate 15 0)))
       [0..<(length bs + 15) div 16]"

text \<open>The closing block of a hashed string: 64 zero bits (there is no additional
  authenticated data), then the length of the string in bits as a 64-bit number.\<close>

definition bit_length :: "buffer \<Rightarrow> block" where
  "bit_length bs = ucast (of_nat (8 * length bs) :: 64 word)"

definition inc32 :: "block \<Rightarrow> block" where
  "inc32 X = (X AND NOT 0xFFFFFFFF) OR ((X + 1) AND 0xFFFFFFFF)"

definition keystream :: "buffer \<Rightarrow> block \<Rightarrow> nat \<Rightarrow> buffer" where
  "keystream key ICB n =
     concat (map (\<lambda>i. be_bytes (CIPH key ((inc32 ^^ i) ICB))) [0..<(n + 15) div 16])"

definition GCTR :: "buffer \<Rightarrow> block \<Rightarrow> buffer \<Rightarrow> buffer" where
  "GCTR key ICB X = map2 (XOR) X (keystream key ICB (length X))"

definition hash_subkey :: "buffer \<Rightarrow> block" where
  "hash_subkey key = CIPH key 0"

text \<open>The pre-counter block: a 96-bit IV is used as it is, any other IV is hashed.\<close>

definition pre_counter :: "buffer \<Rightarrow> buffer \<Rightarrow> block" where
  "pre_counter key iv =
     (if length iv = 12 then be_word (iv @ [0, 0, 0, 1])
      else GHASH (hash_subkey key) (blocks iv @ [bit_length iv]))"

text \<open>The full 16-byte tag of a ciphertext, with no additional authenticated data.\<close>

definition gcm_tag :: "buffer \<Rightarrow> buffer \<Rightarrow> buffer \<Rightarrow> buffer" where
  "gcm_tag key iv ct =
     be_bytes (CIPH key (pre_counter key iv)
               XOR GHASH (hash_subkey key) (blocks ct @ [bit_length ct]))"

definition gcm_crypt :: "buffer \<Rightarrow> buffer \<Rightarrow> buffer \<Rightarrow> buffer" where
  "gcm_crypt key iv X = GCTR key (inc32 (pre_counter key iv)) X"

section \<open>\<^verbatim>\<open>lib/security/encryption.js\<close>\<close>

subsection \<open>The module-level key\<close>

text \<open>\<^verbatim>\<open>process.env.ENCRYPTION_KEY\<close> is a string when the variable is set and \<^verbatim>\<open>undefined\<close>
  otherwise; \<^verbatim>\<open>??\<close> takes the fallback only for \<^verbatim>\<open>undefined\<close>, an empty string is kept.\<close>

definition fallback :: jsstring where
  "fallback = js ''0123456789abcdef0123456789abcdef''"

definition key :: "jsstring option \<Rightarrow> buffer" where
  "key env = utf8_encode (case env of None \<Rightarrow> fallback | Some s \<Rightarrow> s)"

text \<open>The lines the programs write with \<^verbatim>\<open>console.log\<close>.\<close>

datatype message =
    Heading
  | NoUsersFound
  | EncryptedSSNForUserID int
  | AllSSNsEncrypted

type_synonym console = "message list"

text \<open>Evaluating the module runs one statement, the definition of \<^verbatim>\<open>key\<close>. It checks
  nothing, throws nothing and writes nothing to the console.\<close>

definition load_module :: "jsstring option \<Rightarrow> console \<Rightarrow> (error + buffer) \<times> console" where
  "load_module env out = (Inr (key env), out)"

subsection \<open>The calls into \<^verbatim>\<open>node:crypto\<close>\<close>

text \<open>\<^verbatim>\<open>randomBytes(n)\<close> takes the next \<open>n\<close> bytes of the system's random source.\<close>

type_synonym entropy = "nat \<Rightarrow> byte"

definition randomBytes :: "nat \<Rightarrow> entropy \<Rightarrow> buffer \<times> entropy" where
  "randomBytes n src = (map src [0..<n], \<lambda>i. src (i + n))"

text \<open>\<^verbatim>\<open>createCipheriv("aes-256-gcm", key, iv)\<close> and \<^verbatim>\<open>createDecipheriv\<close> check their
  arguments in this order: the IV must not be empty (and OpenSSL 3 takes at most 128 bytes),
  then the key must have 32 bytes.\<close>

definition createCipheriv :: "buffer \<Rightarrow> buffer \<Rightarrow> error + unit" where
  "createCipheriv K iv =
     (if iv = [] \<or> 128 < length iv then Inl ERR_CRYPTO_INVALID_IV
      else if length K \<noteq> 32 then Inl ERR_CRYPTO_INVALID_KEYLEN
      else Inr ())"

text \<open>\<^verbatim>\<open>setAuthTag\<close> takes the tag lengths that NIST SP 800-38D allows for GCM.\<close>

definition valid_tag_length :: "nat \<Rightarrow> bool" where
  "valid_tag_length n = (n = 4 \<or> n = 8 \<or> (12 \<le> n \<and> n \<le> 16))"

subsection \<open>\<^verbatim>\<open>encrypt\<close>\<close>

text \<open>The body of \<^verbatim>\<open>encrypt\<close> once the IV is drawn.\<close>

definition encrypt_iv :: "buffer \<Rightarrow> buffer \<Rightarrow> jsstring \<Rightarrow> error + jsstring" where
  "encrypt_iv K iv plain =
     (case createCipheriv K iv of
        Inl e \<Rightarrow> Inl e
      | Inr _ \<Rightarrow>
          (let encrypted = gcm_crypt K iv (utf8_encode plain);
               tag = gcm_tag K iv encrypted
           in Inr (join colon [toString_hex iv, toString_hex encrypted, toString_hex tag])))"

definition encrypt :: "buffer \<Rightarrow> jsstring \<Rightarrow> entropy \<Rightarrow> (error + jsstring) \<times> entropy" where
  "encrypt K plain src = (case randomBytes 12 src of (iv, src') \<Rightarrow> (encrypt_iv K iv plain, src'))"

subsection \<open>\<^verbatim>\<open>decrypt\<close>\<close>

text \<open>\<^verbatim>\<open>decipher.final()\<close> compares the tag given to \<^verbatim>\<open>setAuthTag\<close> with the leading
  bytes of the tag it computed, and throws when they differ; \<^verbatim>\<open>decrypt\<close> returns only after
  that comparison.\<close>

definition decrypt :: "buffer \<Rightarrow> jsstring \<Rightarrow> error + jsstring" where
  "decrypt K ciphertext =
     (let segs = split colon ciphertext in
      case Buffer_from_hex (element segs 0) of
        Inl e \<Rightarrow> Inl e
      | Inr iv \<Rightarrow>
      (case Buffer_from_hex (element segs 1) of
        Inl e \<Rightarrow> Inl e
      | Inr encrypted \<Rightarrow>
      (case Buffer_from_hex (element segs 2) of
        Inl e \<Rightarrow> Inl e
      | Inr tag \<Rightarrow>
      (case createCipheriv K iv of
        Inl e \<Rightarrow> Inl e
      | Inr _ \<Rightarrow>
          if \<not> valid_tag_length (length tag) then Inl ERR_CRYPTO_INVALID_AUTH_TAG
          else if take (length tag) (gcm_tag K iv encrypted) \<noteq> tag then Inl UnableToAuthenticate
          else Inr (utf8_decode (gcm_crypt K iv encrypted))))))"

section \<open>The \<^verbatim>\<open>encrypt-ssns\<close> command of \<^verbatim>\<open>scripts/db-utils.js\<close>\<close>

text \<open>A row of \<^verbatim>\<open>SELECT id, ssn FROM users\<close>; an SQL \<^verbatim>\<open>NULL\<close> is \<open>None\<close>.\<close>

record user =
  user_id :: int
  ssn :: "jsstring option"

record world =
  users :: "user list"
  random :: entropy
  out :: console

text \<open>\<^verbatim>\<open>UPDATE users SET ssn = ? WHERE id = ?\<close>\<close>

definition update_run :: "jsstring \<Rightarrow> int \<Rightarrow> user list \<Rightarrow> user list" where
  "update_run v i rows = map (\<lambda>r. if user_id r = i then r\<lparr>ssn := Some v\<rparr> else r) rows"

text \<open>\<^verbatim>\<open>users.forEach\<close> over the rows read at the start. The test is
  \<^verbatim>\<open>user.ssn && !user.ssn.includes(":")\<close>, where \<^verbatim>\<open>null\<close> and the empty string are falsy.
  An exception thrown by \<^verbatim>\<open>encrypt\<close> ends the loop; the updates already made stay in the
  database.\<close>

fun forEach :: "buffer \<Rightarrow> user list \<Rightarrow> world \<Rightarrow> error option \<times> world" where
  "forEach K [] w = (None, w)"
| "forEach K (u # us) w =
     (case ssn u of
        None \<Rightarrow> forEach K us w
      | Some s \<Rightarrow>
          if s \<noteq> [] \<and> \<not> string_includes s colon then
            (case encrypt K s (random w) of
               (Inl e, src) \<Rightarrow> (Some e, w\<lparr>random := src\<rparr>)
             | (Inr encrypted, src) \<Rightarrow>
                 forEach K us
                   (w\<lparr>users := update_run encrypted (user_id u) (users w),
                      random := src,
                      out := out w @ [EncryptedSSNForUserID (user_id u)]\<rparr>))
          else forEach K us w)"

definition encrypt_ssns :: "buffer \<Rightarrow> world \<Rightarrow> error option \<times> world" where
  "encrypt_ssns K w =
     (let w1 = w\<lparr>out := out w @ [Heading]\<rparr> in
      if users w1 = [] then (None, w1\<lparr>out := out w1 @ [NoUsersFound]\<rparr>)
      else
        (case forEach K (users w1) w1 of
           (Some e, w2) \<Rightarrow> (Some e, w2)
         | (None, w2) \<Rightarrow> (None, w2\<lparr>out := out w2 @ [AllSSNsEncrypted]\<rparr>)))"

section \<open>Notions used to state the properties\<close>

text \<open>\<^verbatim>\<open>String.prototype.toWellFormed\<close>: every surrogate without its partner becomes U+FFFD.\<close>

fun toWellFormed :: "jsstring \<Rightarrow> jsstring" where
  "toWellFormed [] = []"
| "toWellFormed (u # us) =
     (if is_high_surrogate u then
        (case us of
           [] \<Rightarrow> [0xFFFD]
         | l # rest \<Rightarrow>
             if is_low_surrogate l then u # l # toWellFormed rest
             else 0xFFFD # toWellFormed us)
      else if is_low_surrogate u then 0xFFFD # toWellFormed us
      else u # toWellFormed us)"

text \<open>A segment is valid hex when it is a whole number of pairs of hex digits.\<close>

definition valid_hex :: "jsstring \<Rightarrow> bool" where
  "valid_hex s = (even (length s) \<and> list_all (\<lambda>c. unhex c \<noteq> None) s)"


text \<open>The expression \<^verbatim>\<open>decrypt(encrypt(p))\<close>.\<close>

definition decrypt_encrypt :: "buffer \<Rightarrow> jsstring \<Rightarrow> entropy \<Rightarrow> error + jsstring" where
  "decrypt_encrypt K p src =
     (case fst (encrypt K p src) of Inl e \<Rightarrow> Inl e | Inr c \<Rightarrow> decrypt K c)"

text \<open>The string that \<^verbatim>\<open>encrypt\<close> returns for a given IV when \<^verbatim>\<open>createCipheriv\<close> accepts its
  arguments.\<close>

definition envelope :: "buffer \<Rightarrow> buffer \<Rightarrow> jsstring \<Rightarrow> jsstring" where
  "envelope K iv p =
     join colon [toString_hex iv, toString_hex (gcm_crypt K iv (utf8_encode p)),
                 toString_hex (gcm_tag K iv (gcm_crypt K iv (utf8_encode p)))]"

text \<open>The test of the sweep, \<^verbatim>\<open>user.ssn && !user.ssn.includes(":")\<close>, as a predicate on rows.\<close>

definition unencrypted :: "user \<Rightarrow> bool" where
  "unencrypted u =
     (case ssn u of None \<Rightarrow> False | Some s \<Rightarrow> s \<noteq> [] \<and> \<not> string_includes s colon)"




text \<open>The state of the world after \<open>n\<close> runs of the command.\<close>

fun sweeps :: "buffer \<Rightarrow> nat \<Rightarrow> world \<Rightarrow> world" where
  "sweeps K 0 w = w"
| "sweeps K (Suc n) w = sweeps K n (snd (encrypt_ssns K w))"

text \<open>Concrete inputs for the examples: two random sources, a store that holds a plain
  value and a value with a \<^verbatim>\<open>:\<close> in it, and a store that holds only the latter.\<close>

definition zeros :: entropy where
  "zeros = (\<lambda>i. 0)"

definition ones :: entropy where
  "ones = (\<lambda>i. 1)"



section \<open>Hex strings, segments and the counter mode\<close>

lemma unat_of_nat16: "n < 65536 \<Longrightarrow> unat (of_nat n :: 16 word) = n"
  by (simp add: unat_of_nat)

lemma unat_of_nat8: "n < 256 \<Longrightarrow> unat (of_nat n :: 8 word) = n"
  by (simp add: unat_of_nat)

lemma unat_byte_less: "unat (b::byte) < 256"
  using unsigned_less [of b, where 'a = nat] by simp

lemma unat_unit_less: "unat (u::16 word) < 65536"
  using unsigned_less [of u, where 'a = nat] by simp

lemma unat_hex_digit: "n < 16 \<Longrightarrow> unat (hex_digit n) = (if n < 10 then 48 + n else 87 + n)"
  unfolding hex_digit_def by (simp del: of_nat_add add: unat_of_nat16)

lemma unhex_hex_digit: "n < 16 \<Longrightarrow> unhex (hex_digit n) = Some n"
  by (simp add: unhex_def unat_hex_digit Let_def)

lemma hex_digit_not_colon: "n < 16 \<Longrightarrow> hex_digit n \<noteq> colon"
proof
  assume "n < 16" and "hex_digit n = colon"
  then have "unat (hex_digit n) = unat colon" by simp
  with \<open>n < 16\<close> show False by (simp add: unat_hex_digit colon_def split: if_splits)
qed

lemma byte_nibbles: "unat (b::byte) div 16 < 16" "unat b mod 16 < 16"
  using unat_byte_less [of b] by simp_all

lemma hex_decode_toString_hex: "hex_decode (toString_hex bs) = bs"
  by (induction bs) (simp_all add: unhex_hex_digit byte_nibbles)

lemma colon_notin_toString_hex: "colon \<notin> set (toString_hex bs)"
  by (induction bs) (simp_all add: hex_digit_not_colon [THEN not_sym] byte_nibbles)

lemma length_toString_hex: "length (toString_hex bs) = 2 * length bs"
  by (induction bs) simp_all

lemma split_no_sep: "c \<notin> set s \<Longrightarrow> split c s = [s]"
  by (induction s) auto

lemma split_append: "c \<notin> set a \<Longrightarrow> split c (a @ c # rest) = a # split c rest"
  by (induction a) auto



lemma length_be_bytes: "length (be_bytes w) = 16"
  by (simp add: be_bytes_def)

lemma length_concat_const:
  "(\<And>x. x \<in> set xs \<Longrightarrow> length (f x) = k) \<Longrightarrow> length (concat (map f xs)) = k * length xs"
  by (induction xs) simp_all

lemma length_keystream: "length (keystream K ICB n) = 16 * ((n + 15) div 16)"
  by (simp add: keystream_def length_concat_const [where k = 16] length_be_bytes)

lemma keystream_covers: "n \<le> length (keystream K ICB n)"
  by (simp add: length_keystream)

lemma length_GCTR: "length (GCTR K ICB X) = length X"
  using keystream_covers [of "length X" K ICB] by (simp add: GCTR_def)

lemma map2_xor_cancel:
  "length xs \<le> length ks \<Longrightarrow> map2 (XOR) (map2 (XOR) xs ks) ks = (xs :: byte list)"
proof (induction xs arbitrary: ks)
  case Nil
  then show ?case by simp
next
  case (Cons x xs)
  then obtain k ks' where "ks = k # ks'" by (cases ks) auto
  with Cons show ?case by (simp add: xor.assoc)
qed

lemma GCTR_involution: "GCTR K ICB (GCTR K ICB X) = X"
proof -
  have "GCTR K ICB (GCTR K ICB X) =
        map2 (XOR) (map2 (XOR) X (keystream K ICB (length X))) (keystream K ICB (length X))"
    by (simp only: GCTR_def [of K ICB "GCTR K ICB X"] length_GCTR) (simp only: GCTR_def)
  then show ?thesis by (simp add: map2_xor_cancel keystream_covers)
qed

lemma length_gcm_crypt: "length (gcm_crypt K iv X) = length X"
  by (simp add: gcm_crypt_def length_GCTR)

lemma gcm_crypt_involution: "gcm_crypt K iv (gcm_crypt K iv X) = X"
  by (simp add: gcm_crypt_def GCTR_involution)

lemma length_gcm_tag: "length (gcm_tag K iv ct) = 16"
  by (simp add: gcm_tag_def length_be_bytes)

lemma element_numeral:
  "element xs 1 = element xs (Suc 0)" "element xs 2 = element xs (Suc (Suc 0))"
  by (simp_all add: numeral_2_eq_2)

lemma split_envelope:
  "split colon (join colon [toString_hex a, toString_hex b, toString_hex c])
     = [toString_hex a, toString_hex b, toString_hex c]"
  by (simp add: split_append split_no_sep colon_notin_toString_hex)

lemma createCipheriv_ok: "length K = 32 \<Longrightarrow> length iv = 12 \<Longrightarrow> createCipheriv K iv = Inr ()"
  by (auto simp: createCipheriv_def)

lemma encrypt_iv_ok:
  "length K = 32 \<Longrightarrow> length iv = 12 \<Longrightarrow>
   encrypt_iv K iv p =
     Inr (join colon [toString_hex iv, toString_hex (gcm_crypt K iv (utf8_encode p)),
                      toString_hex (gcm_tag K iv (gcm_crypt K iv (utf8_encode p)))])"
  by (simp add: encrypt_iv_def createCipheriv_ok Let_def)

lemma decrypt_envelope:
  assumes "length K = 32" and "length iv = 12"
  shows "decrypt K (join colon [toString_hex iv, toString_hex (gcm_crypt K iv bs),
                                toString_hex (gcm_tag K iv (gcm_crypt K iv bs))])
         = Inr (utf8_decode bs)"
  unfolding decrypt_def split_envelope Let_def
  by (simp add: element_numeral Buffer_from_hex_def hex_decode_toString_hex createCipheriv_ok
      assms length_gcm_tag valid_tag_length_def gcm_crypt_involution)

lemma decrypt_encrypt_iv:
  assumes "length K = 32" and "length iv = 12" and "encrypt_iv K iv p = Inr e"
  shows "decrypt K e = Inr (utf8_decode (utf8_encode p))"
proof -
  from assms(3) have "e = join colon [toString_hex iv, toString_hex (gcm_crypt K iv (utf8_encode p)),
      toString_hex (gcm_tag K iv (gcm_crypt K iv (utf8_encode p)))]"
    by (simp only: encrypt_iv_ok [OF assms(1,2)] sum.inject)
  then show ?thesis by (simp only: decrypt_envelope [OF assms(1,2)])
qed

section \<open>UTF-8 encoding followed by decoding\<close>

declare utf8_decode.simps(2) [simp del]

lemma decode_step1:
  "unat b0 < 0x80 \<Longrightarrow> utf8_decode (b0 # rest) = of_nat (unat b0) # utf8_decode rest"
  by (simp add: utf8_decode.simps(2) Let_def)

lemma decode_step2:
  "0xC2 \<le> unat b0 \<Longrightarrow> unat b0 \<le> 0xDF \<Longrightarrow> 0x80 \<le> unat b1 \<Longrightarrow> unat b1 \<le> 0xBF \<Longrightarrow>
   utf8_decode (b0 # b1 # rest) =
     utf16_units ((unat b0 - 0xC0) * 64 + (unat b1 - 0x80)) @ utf8_decode rest"
  by (simp add: utf8_decode.simps(2) Let_def continuation_def)

lemma decode_step3:
  "0xE0 \<le> unat b0 \<Longrightarrow> unat b0 \<le> 0xEF \<Longrightarrow>
   (if unat b0 = 0xE0 then 0xA0 else 0x80) \<le> unat b1 \<Longrightarrow>
   unat b1 \<le> (if unat b0 = 0xED then 0x9F else 0xBF) \<Longrightarrow>
   0x80 \<le> unat b2 \<Longrightarrow> unat b2 \<le> 0xBF \<Longrightarrow>
   utf8_decode (b0 # b1 # b2 # rest) =
     utf16_units (((unat b0 - 0xE0) * 64 + (unat b1 - 0x80)) * 64 + (unat b2 - 0x80))
       @ utf8_decode rest"
  by (simp add: utf8_decode.simps(2) Let_def continuation_def)

lemma decode_step4:
  "0xF0 \<le> unat b0 \<Longrightarrow> unat b0 \<le> 0xF4 \<Longrightarrow>
   (if unat b0 = 0xF0 then 0x90 else 0x80) \<le> unat b1 \<Longrightarrow>
   unat b1 \<le> (if unat b0 = 0xF4 then 0x8F else 0xBF) \<Longrightarrow>
   0x80 \<le> unat b2 \<Longrightarrow> unat b2 \<le> 0xBF \<Longrightarrow>
   0x80 \<le> unat b3 \<Longrightarrow> unat b3 \<le> 0xBF \<Longrightarrow>
   utf8_decode (b0 # b1 # b2 # b3 # rest) =
     utf16_units ((((unat b0 - 0xF0) * 64 + (unat b1 - 0x80)) * 64 + (unat b2 - 0x80)) * 64
                   + (unat b3 - 0x80))
       @ utf8_decode rest"
  by (simp add: utf8_decode.simps(2) Let_def continuation_def)


lemma split3: "(cp div 4096 * 64 + cp div 64 mod 64) * 64 + cp mod 64 = (cp::nat)"
proof -
  have "cp div 4096 = cp div 64 div 64" by (simp add: div_mult2_eq)
  then show ?thesis by simp
qed

lemma split4:
  "((cp div 262144 * 64 + cp div 4096 mod 64) * 64 + cp div 64 mod 64) * 64 + cp mod 64 = (cp::nat)"
proof -
  have "cp div 262144 = cp div 4096 div 64" by (simp add: div_mult2_eq)
  then have "cp div 262144 * 64 + cp div 4096 mod 64 = cp div 4096" by simp
  then show ?thesis using split3 [of cp] by simp
qed

lemma mod64_low: "(q::nat) div 64 = 0 \<Longrightarrow> n \<le> q \<Longrightarrow> n \<le> q mod 64"
  using div_mult_mod_eq [of q 64] by simp

lemma mod64_13: "(q::nat) div 64 = 13 \<Longrightarrow> q < 864 \<Longrightarrow> q mod 64 < 32"
  using div_mult_mod_eq [of q 64] by simp

lemma mod64_4: "(q::nat) div 64 = 4 \<Longrightarrow> q < 272 \<Longrightarrow> q mod 64 < 16"
  using div_mult_mod_eq [of q 64] by simp

lemma decode_bytes1:
  assumes "cp < 0x80"
  shows "utf8_decode (utf8_bytes cp @ rest) = utf16_units cp @ utf8_decode rest"
proof -
  have b0: "unat (of_nat cp :: byte) = cp" using assms by (intro unat_of_nat8) arith
  have "utf8_bytes cp = [of_nat cp]" using assms by (simp add: utf8_bytes_def)
  moreover have "utf16_units cp = [of_nat cp]" using assms by (simp add: utf16_units_def)
  moreover have "utf8_decode ((of_nat cp :: byte) # rest) = of_nat cp # utf8_decode rest"
    using decode_step1 [of "of_nat cp" rest] assms by (simp only: b0)
  ultimately show ?thesis by simp
qed

lemma decode_bytes2:
  assumes "0x80 \<le> cp" "cp < 0x800"
  shows "utf8_decode (utf8_bytes cp @ rest) = utf16_units cp @ utf8_decode rest"
proof -
  define b0 :: byte where "b0 = of_nat (0xC0 + cp div 64)"
  define b1 :: byte where "b1 = of_nat (0x80 + cp mod 64)"
  have q: "2 \<le> cp div 64" "cp div 64 < 32" using assms by arith+
  have u0: "unat b0 = 0xC0 + cp div 64"
    unfolding b0_def using q by (intro unat_of_nat8) simp
  have u1: "unat b1 = 0x80 + cp mod 64"
    unfolding b1_def by (intro unat_of_nat8) simp
  have bytes: "utf8_bytes cp = [b0, b1]"
    using assms by (simp add: utf8_bytes_def b0_def b1_def del: of_nat_add)
  have r: "0xC2 \<le> unat b0" "unat b0 \<le> 0xDF" "0x80 \<le> unat b1" "unat b1 \<le> 0xBF"
    unfolding u0 u1 using q by simp_all
  have v: "(unat b0 - 0xC0) * 64 + (unat b1 - 0x80) = cp"
    unfolding u0 u1 by simp
  show ?thesis
    using decode_step2 [OF r, of rest] by (simp only: bytes v append.simps)
qed

lemma decode_bytes3:
  assumes "0x800 \<le> cp" "cp < 0x10000" "\<not> (0xD800 \<le> cp \<and> cp \<le> 0xDFFF)"
  shows "utf8_decode (utf8_bytes cp @ rest) = utf16_units cp @ utf8_decode rest"
proof -
  define b0 :: byte where "b0 = of_nat (0xE0 + cp div 4096)"
  define b1 :: byte where "b1 = of_nat (0x80 + cp div 64 mod 64)"
  define b2 :: byte where "b2 = of_nat (0x80 + cp mod 64)"
  define q where "q = cp div 64"
  have q: "32 \<le> q" "q < 1024" "\<not> (864 \<le> q \<and> q < 896)"
    unfolding q_def using assms by arith+
  have q64: "cp div 4096 = q div 64" by (simp add: q_def div_mult2_eq)
  have u0: "unat b0 = 0xE0 + q div 64"
    unfolding b0_def q64 using q by (intro unat_of_nat8) simp
  have u1: "unat b1 = 0x80 + q mod 64"
    unfolding b1_def q_def by (intro unat_of_nat8) simp
  have u2: "unat b2 = 0x80 + cp mod 64"
    unfolding b2_def by (intro unat_of_nat8) simp
  have bytes: "utf8_bytes cp = [b0, b1, b2]"
    using assms by (simp add: utf8_bytes_def b0_def b1_def b2_def del: of_nat_add)
  have r0: "0xE0 \<le> unat b0" "unat b0 \<le> 0xEF"
    unfolding u0 using q by simp_all
  have r1: "(if unat b0 = 0xE0 then 0xA0 else 0x80) \<le> unat b1"
    unfolding u0 u1 using mod64_low [of q 32] q(1) by simp
  have "q mod 64 < 64" by simp
  moreover have "q div 64 = 13 \<Longrightarrow> q mod 64 < 32"
  proof -
    assume d: "q div 64 = 13"
    then have "q < 896" using div_mult_mod_eq [of q 64] by simp
    moreover from d have "832 \<le> q" using div_mult_mod_eq [of q 64] by simp
    ultimately have "q < 864" using q(3) by simp
    with d show ?thesis by (rule mod64_13)
  qed
  ultimately have r1': "unat b1 \<le> (if unat b0 = 0xED then 0x9F else 0xBF)"
    unfolding u0 u1 by auto
  have r2: "0x80 \<le> unat b2" "unat b2 \<le> 0xBF"
    unfolding u2 by simp_all
  have v: "((unat b0 - 0xE0) * 64 + (unat b1 - 0x80)) * 64 + (unat b2 - 0x80) = cp"
    unfolding u0 u1 u2 using split3 [of cp] by (simp add: q64 q_def)
  show ?thesis
    using decode_step3 [OF r0 r1 r1' r2, of rest] by (simp only: bytes v append.simps)
qed

lemma decode_bytes4:
  assumes "0x10000 \<le> cp" "cp < 0x110000"
  shows "utf8_decode (utf8_bytes cp @ rest) = utf16_units cp @ utf8_decode rest"
proof -
  define b0 :: byte where "b0 = of_nat (0xF0 + cp div 262144)"
  define b1 :: byte where "b1 = of_nat (0x80 + cp div 4096 mod 64)"
  define b2 :: byte where "b2 = of_nat (0x80 + cp div 64 mod 64)"
  define b3 :: byte where "b3 = of_nat (0x80 + cp mod 64)"
  define q where "q = cp div 4096"
  have q: "16 \<le> q" "q < 272"
    unfolding q_def using assms by arith+
  have q64: "cp div 262144 = q div 64" by (simp add: q_def div_mult2_eq)
  have u0: "unat b0 = 0xF0 + q div 64"
    unfolding b0_def q64 using q by (intro unat_of_nat8) simp
  have u1: "unat b1 = 0x80 + q mod 64"
    unfolding b1_def q_def by (intro unat_of_nat8) simp
  have u2: "unat b2 = 0x80 + cp div 64 mod 64"
    unfolding b2_def by (intro unat_of_nat8) simp
  have u3: "unat b3 = 0x80 + cp mod 64"
    unfolding b3_def by (intro unat_of_nat8) simp
  have bytes: "utf8_bytes cp = [b0, b1, b2, b3]"
    using assms by (simp add: utf8_bytes_def b0_def b1_def b2_def b3_def del: of_nat_add)
  have r0: "0xF0 \<le> unat b0" "unat b0 \<le> 0xF4"
    unfolding u0 using q by simp_all
  have r1: "(if unat b0 = 0xF0 then 0x90 else 0x80) \<le> unat b1"
    unfolding u0 u1 using mod64_low [of q 16] q(1) by simp
  have "q mod 64 < 64" by simp
  then have r1': "unat b1 \<le> (if unat b0 = 0xF4 then 0x8F else 0xBF)"
    unfolding u0 u1 using mod64_4 [of q] q(2) by auto
  have r2: "0x80 \<le> unat b2" "unat b2 \<le> 0xBF" "0x80 \<le> unat b3" "unat b3 \<le> 0xBF"
    unfolding u2 u3 by simp_all
  have v: "(((unat b0 - 0xF0) * 64 + (unat b1 - 0x80)) * 64 + (unat b2 - 0x80)) * 64
             + (unat b3 - 0x80) = cp"
    unfolding u0 u1 u2 u3 using split4 [of cp] by (simp add: q64 q_def)
  show ?thesis
    using decode_step4 [OF r0 r1 r1' r2, of rest] by (simp only: bytes v append.simps)
qed


lemma decode_bytes:
  assumes "cp < 0x110000" "\<not> (0xD800 \<le> cp \<and> cp \<le> 0xDFFF)"
  shows "utf8_decode (utf8_bytes cp @ rest) = utf16_units cp @ utf8_decode rest"
proof -
  consider "cp < 0x80" | "0x80 \<le> cp \<and> cp < 0x800" | "0x800 \<le> cp \<and> cp < 0x10000"
    | "0x10000 \<le> cp"
    by linarith
  then show ?thesis
  proof cases
    case 1
    then show ?thesis by (rule decode_bytes1)
  next
    case 2
    then show ?thesis by (intro decode_bytes2) simp_all
  next
    case 3
    with assms(2) show ?thesis by (intro decode_bytes3) simp_all
  next
    case 4
    with assms(1) show ?thesis by (intro decode_bytes4) simp_all
  qed
qed

lemma utf16_units_unit:
  "\<not> is_high_surrogate u \<Longrightarrow> \<not> is_low_surrogate u \<Longrightarrow> utf16_units (unat u) = [u]"
  using unat_unit_less [of u] by (simp add: utf16_units_def)

lemma unit_scalar:
  "\<not> is_high_surrogate u \<Longrightarrow> \<not> is_low_surrogate u \<Longrightarrow>
   unat u < 0x110000 \<and> \<not> (0xD800 \<le> unat u \<and> unat u \<le> 0xDFFF)"
  using unat_unit_less [of u] by (auto simp: is_high_surrogate_def is_low_surrogate_def)

lemma utf16_units_pair:
  assumes "is_high_surrogate h" "is_low_surrogate l"
  shows "utf16_units (0x10000 + (unat h - 0xD800) * 1024 + (unat l - 0xDC00)) = [h, l]"
proof -
  define a where "a = unat h - 0xD800"
  define b where "b = unat l - 0xDC00"
  have a: "a < 1024" "unat h = 0xD800 + a"
    using assms(1) by (auto simp: a_def is_high_surrogate_def)
  have b: "b < 1024" "unat l = 0xDC00 + b"
    using assms(2) by (auto simp: b_def is_low_surrogate_def)
  have "utf16_units (0x10000 + a * 1024 + b) = [of_nat (0xD800 + a), of_nat (0xDC00 + b)]"
    using b(1) by (simp add: utf16_units_def del: of_nat_add)
  also have "\<dots> = [of_nat (unat h), of_nat (unat l)]"
    by (simp only: a(2) b(2))
  finally show ?thesis by (simp add: a_def b_def)
qed

lemma pair_scalar:
  assumes "is_high_surrogate h" "is_low_surrogate l"
  shows "0x10000 + (unat h - 0xD800) * 1024 + (unat l - 0xDC00) < 0x110000"
    and "\<not> (0xD800 \<le> 0x10000 + (unat h - 0xD800) * 1024 + (unat l - 0xDC00)
            \<and> 0x10000 + (unat h - 0xD800) * 1024 + (unat l - 0xDC00) \<le> 0xDFFF)"
  using assms by (auto simp: is_high_surrogate_def is_low_surrogate_def)

lemma utf8_round_trip: "isWellFormed s \<Longrightarrow> utf8_decode (utf8_encode s) = s"
proof (induction s rule: isWellFormed.induct)
  case 1
  then show ?case by simp
next
  case (2 u us)
  show ?case
  proof (cases "is_high_surrogate u")
    case True
    with "2.prems" obtain l rest where us: "us = l # rest" and l: "is_low_surrogate l"
      and wf: "isWellFormed rest"
      by (cases us) auto
    have "utf8_decode (utf8_encode rest) = rest"
      using "2.IH"(1) True us wf by simp
    then show ?thesis
      using True l us
      by (simp add: decode_bytes [OF pair_scalar [OF True l]] utf16_units_pair [OF True l])
  next
    case False
    with "2.prems" have nl: "\<not> is_low_surrogate u" and wf: "isWellFormed us"
      by (auto split: if_splits)
    have "utf8_decode (utf8_encode us) = us"
      using "2.IH"(2) False nl wf by simp
    then show ?thesis
      using False nl
      by (simp add: decode_bytes [OF unit_scalar [OF False nl, THEN conjunct1]
            unit_scalar [OF False nl, THEN conjunct2]] utf16_units_unit)
  qed
qed

lemma decode_replacement: "utf8_decode (utf8_bytes 0xFFFD @ rest) = 0xFFFD # utf8_decode rest"
  using decode_bytes [of "0xFFFD" rest] by (simp add: utf16_units_def)

lemma utf8_decode_encode: "utf8_decode (utf8_encode s) = toWellFormed s"
proof (induction s rule: toWellFormed.induct)
  case 1
  then show ?case by simp
next
  case (2 u us)
  show ?case
  proof (cases "is_high_surrogate u")
    case True
    show ?thesis
    proof (cases us)
      case Nil
      with True show ?thesis using decode_replacement [of "[]"] by simp
    next
      case (Cons l rest)
      show ?thesis
      proof (cases "is_low_surrogate l")
        case low: True
        have "utf8_decode (utf8_encode rest) = toWellFormed rest"
          using "2.IH"(1) True Cons low by simp
        then show ?thesis
          using True low Cons
          by (simp add: decode_bytes [OF pair_scalar [OF True low]] utf16_units_pair [OF True low])
      next
        case False
        have "utf8_decode (utf8_encode us) = toWellFormed us"
          using "2.IH"(2) True Cons False by simp
        then show ?thesis
          using True False Cons by (simp add: decode_replacement)
      qed
    qed
  next
    case False
    show ?thesis
    proof (cases "is_low_surrogate u")
      case True
      have "utf8_decode (utf8_encode us) = toWellFormed us"
        using "2.IH"(3) False True by simp
      then show ?thesis using False True by (simp add: decode_replacement)
    next
      case nl: False
      have "utf8_decode (utf8_encode us) = toWellFormed us"
        using "2.IH"(4) False nl by simp
      then show ?thesis
        using False nl
        by (simp add: decode_bytes [OF unit_scalar [OF False nl, THEN conjunct1]
              unit_scalar [OF False nl, THEN conjunct2]] utf16_units_unit)
    qed
  qed
qed

lemma replacement_not_surrogate:
  "\<not> is_high_surrogate 0xFFFD" "\<not> is_low_surrogate 0xFFFD"
  by (simp_all add: is_high_surrogate_def is_low_surrogate_def)

lemma toWellFormed_fixed: "toWellFormed s = s \<longleftrightarrow> isWellFormed s"
proof (induction s rule: toWellFormed.induct)
  case 1
  then show ?case by simp
next
  case (2 u us)
  then show ?case
    using replacement_not_surrogate
    by (cases us) (auto split: if_splits)
qed

section \<open>Encryption followed by decryption\<close>

lemma length_randomBytes: "length (fst (randomBytes n src)) = n"
  by (simp add: randomBytes_def)

lemma valid_hex_toString_hex: "valid_hex (toString_hex bs)"
  by (induction bs) (simp_all add: valid_hex_def unhex_hex_digit byte_nibbles)

lemma encrypt_ok:
  assumes "length K = 32"
  shows "fst (encrypt K p src) =
     Inr (join colon [toString_hex (fst (randomBytes 12 src)),
            toString_hex (gcm_crypt K (fst (randomBytes 12 src)) (utf8_encode p)),
            toString_hex (gcm_tag K (fst (randomBytes 12 src))
               (gcm_crypt K (fst (randomBytes 12 src)) (utf8_encode p)))])"
  using encrypt_iv_ok [OF assms length_randomBytes [of 12 src], of p]
  by (simp add: encrypt_def split_beta del: join.simps)

lemma decrypt_encrypt_eq:
  assumes "length K = 32"
  shows "decrypt_encrypt K p src = Inr (toWellFormed p)"
  unfolding decrypt_encrypt_def encrypt_ok [OF assms]
  using decrypt_envelope [OF assms length_randomBytes [of 12 src], of "utf8_encode p"]
  by (simp add: utf8_decode_encode del: join.simps)


lemma length_key_None: "length (key None) = 32"
  by (simp add: key_def fallback_def js_def is_high_surrogate_def is_low_surrogate_def utf8_bytes_def)

section \<open>The sweep with a valid key and unique ids\<close>

lemma encrypt_valid:
  "length K = 32 \<Longrightarrow>
   encrypt K p src = (Inr (envelope K (fst (randomBytes 12 src)) p), snd (randomBytes 12 src))"
  using encrypt_iv_ok [OF _ length_randomBytes [of 12 src], of K p]
  by (simp add: encrypt_def split_beta envelope_def del: join.simps)






lemma map_user_id_update_run: "map user_id (update_run v j rows) = map user_id rows"
  by (simp add: update_run_def)


lemma forEach_unfold:
  "forEach K (u # us) w =
     (if unencrypted u then
        (case encrypt K (the (ssn u)) (random w) of
           (Inl e, src) \<Rightarrow> (Some e, w\<lparr>random := src\<rparr>)
         | (Inr encrypted, src) \<Rightarrow>
             forEach K us
               (w\<lparr>users := update_run encrypted (user_id u) (users w),
                  random := src,
                  out := out w @ [EncryptedSSNForUserID (user_id u)]\<rparr>))
      else forEach K us w)"
  by (auto simp: unencrypted_def split: option.splits)

declare forEach.simps(2) [simp del]

lemma forEach_ids: "map user_id (users (snd (forEach K us w))) = map user_id (users w)"
proof (induction us arbitrary: w)
  case Nil
  then show ?case by simp
next
  case (Cons u us)
  show ?case
    unfolding forEach_unfold
    by (auto simp: Cons.IH map_user_id_update_run split: prod.splits sum.splits)
qed


lemma encrypt_ssns_users:
  "users (snd (encrypt_ssns K w)) = users (snd (forEach K (users w) (w\<lparr>out := out w @ [Heading]\<rparr>)))"
  by (simp add: encrypt_ssns_def Let_def split: prod.splits option.splits)

lemma encrypt_ssns_ids: "map user_id (users (snd (encrypt_ssns K w))) = map user_id (users w)"
  by (simp add: encrypt_ssns_users forEach_ids)


lemma sweeps_ids: "map user_id (users (sweeps K n w)) = map user_id (users w)"
  by (induction n arbitrary: w) (simp_all add: encrypt_ssns_ids)











lemma decrypt_envelope_eq:
  assumes "length K = 32" and "length iv = 12"
  shows "decrypt K (envelope K iv s) = Inr (toWellFormed s)"
  using decrypt_envelope [OF assms, of "utf8_encode s"]
  by (simp add: envelope_def utf8_decode_encode del: join.simps)


section \<open>Segments, errors and the examples\<close>








lemma envelope_inject_iv:
  assumes "envelope K iv p = envelope K iv' p"
  shows "iv = iv'"
proof -
  have "split colon (envelope K iv p) = split colon (envelope K iv' p)" using assms by simp
  then have "toString_hex iv = toString_hex iv'"
    unfolding envelope_def split_envelope by simp
  then have "hex_decode (toString_hex iv) = hex_decode (toString_hex iv')" by simp
  then show ?thesis by (simp only: hex_decode_toString_hex)
qed

lemma encrypt_twice:
  assumes "length K = 32" and "fst (randomBytes 12 src1) \<noteq> fst (randomBytes 12 src2)"
  shows "\<exists>e1 e2. fst (encrypt K p src1) = Inr e1 \<and> fst (encrypt K p src2) = Inr e2 \<and> e1 \<noteq> e2
           \<and> decrypt K e1 = Inr (toWellFormed p) \<and> decrypt K e2 = Inr (toWellFormed p)"
proof (intro exI conjI)
  show "fst (encrypt K p src1) = Inr (envelope K (fst (randomBytes 12 src1)) p)"
    by (simp add: encrypt_valid [OF assms(1)])
  show "fst (encrypt K p src2) = Inr (envelope K (fst (randomBytes 12 src2)) p)"
    by (simp add: encrypt_valid [OF assms(1)])
  show "envelope K (fst (randomBytes 12 src1)) p \<noteq> envelope K (fst (randomBytes 12 src2)) p"
    using assms(2) envelope_inject_iv by blast
  show "decrypt K (envelope K (fst (randomBytes 12 src1)) p) = Inr (toWellFormed p)"
    by (rule decrypt_envelope_eq [OF assms(1) length_randomBytes])
  show "decrypt K (envelope K (fst (randomBytes 12 src2)) p) = Inr (toWellFormed p)"
    by (rule decrypt_envelope_eq [OF assms(1) length_randomBytes])
qed

lemma ssns_wrong_key:
  assumes "length K \<noteq> 32"
  shows "fst (encrypt K p src) = Inl ERR_CRYPTO_INVALID_KEYLEN"
    and "decrypt K c \<in> {Inl ERR_INVALID_ARG_TYPE, Inl ERR_CRYPTO_INVALID_IV, Inl ERR_CRYPTO_INVALID_KEYLEN}"
proof -
  have "createCipheriv K (fst (randomBytes 12 src)) = Inl ERR_CRYPTO_INVALID_KEYLEN"
    using assms length_randomBytes [of 12 src]
    by (auto simp: createCipheriv_def simp del: length_map)
  then show "fst (encrypt K p src) = Inl ERR_CRYPTO_INVALID_KEYLEN"
    by (simp add: encrypt_def encrypt_iv_def split_beta)
  have "createCipheriv K iv = Inl ERR_CRYPTO_INVALID_IV
        \<or> createCipheriv K iv = Inl ERR_CRYPTO_INVALID_KEYLEN" for iv
    using assms by (simp add: createCipheriv_def)
  then show "decrypt K c \<in> {Inl ERR_INVALID_ARG_TYPE, Inl ERR_CRYPTO_INVALID_IV, Inl ERR_CRYPTO_INVALID_KEYLEN}"
    unfolding decrypt_def Let_def Buffer_from_hex_def
    by (auto split: sum.splits option.splits) (metis sum.inject(1) Inl_Inr_False)+
qed

lemma js_simps: "js [] = []" "js (c # cs) = of_nat (of_char c) # js cs"
  by (simp_all add: js_def)






lemma randomBytes_zeros: "fst (randomBytes 12 zeros) = replicate 12 0"
  by (simp add: randomBytes_def zeros_def map_replicate_const)

lemma randomBytes_ones: "fst (randomBytes 12 ones) = replicate 12 1"
  by (simp add: randomBytes_def ones_def map_replicate_const)

lemma key_short: "key (Some (js ''short'')) = [0x73, 0x68, 0x6F, 0x72, 0x74]"
  by (simp add: key_def js_simps is_high_surrogate_def is_low_surrogate_def utf8_bytes_def)


section \<open>The properties\<close>

text \<open>Claim C1, as stated: \<^verbatim>\<open>decrypt(encrypt(p)) == p\<close> for every plaintext. It fails for a
  string that holds a surrogate without its partner: the UTF-8 encoder writes U+FFFD for it,
  and U+FFFD is what comes back.\<close>

theorem decrypt_encrypt_lone_surrogate:
  "decrypt_encrypt (key None) [0xD800] zeros = Inr [0xFFFD]
   \<and> decrypt_encrypt (key None) [0xD800] zeros \<noteq> Inr [0xD800]"
  by (simp add: decrypt_encrypt_eq [OF length_key_None] is_high_surrogate_def)

text \<open>Claim C1, amended. With a key of 32 bytes, \<^verbatim>\<open>decrypt(encrypt(p))\<close> returns \<open>p\<close> exactly
  when \<open>p\<close> is a well-formed string; the empty string and text of several bytes per character
  are well-formed.\<close>

theorem decrypt_encrypt_round_trip:
  assumes "length K = 32"
  shows "decrypt_encrypt K p src = Inr p \<longleftrightarrow> isWellFormed p"
  by (simp add: decrypt_encrypt_eq [OF assms] toWellFormed_fixed)

theorem decrypt_encrypt_round_trip_witness:
  "length (key None) = 32 \<and> isWellFormed (js ''123-45-6789'')
   \<and> decrypt_encrypt (key None) (js ''123-45-6789'') zeros = Inr (js ''123-45-6789'')"
  using decrypt_encrypt_round_trip [of "key None" "js ''123-45-6789''" zeros]
  by (simp add: length_key_None js_def is_high_surrogate_def is_low_surrogate_def)




text \<open>Claim C4, as stated: two calls on the same plaintext with distinct nonces give different
  envelopes, and both decrypt to the plaintext. For a string with a surrogate without its
  partner both envelopes decrypt to U+FFFD instead.\<close>

theorem encrypt_twice_lone_surrogate:
  "fst (randomBytes 12 zeros) \<noteq> fst (randomBytes 12 ones)
   \<and> decrypt_encrypt (key None) [0xDC00] zeros = Inr [0xFFFD]
   \<and> decrypt_encrypt (key None) [0xDC00] ones = Inr [0xFFFD]"
  by (simp add: decrypt_encrypt_eq [OF length_key_None] is_high_surrogate_def
      is_low_surrogate_def randomBytes_zeros randomBytes_ones)

text \<open>Claim C4, amended. With a key of 32 bytes and a well-formed plaintext, two calls of
  \<^verbatim>\<open>encrypt\<close> that draw distinct nonces return different envelopes, and each of the two
  decrypts to the plaintext.\<close>

theorem encrypt_twice_distinct:
  assumes "length K = 32" and "fst (randomBytes 12 src1) \<noteq> fst (randomBytes 12 src2)"
    and "isWellFormed p"
  shows "\<exists>e1 e2. fst (encrypt K p src1) = Inr e1 \<and> fst (encrypt K p src2) = Inr e2 \<and> e1 \<noteq> e2
           \<and> decrypt K e1 = Inr p \<and> decrypt K e2 = Inr p"
  using encrypt_twice [OF assms(1,2), of p]
  by (simp add: toWellFormed_fixed [THEN iffD2, OF assms(3)])

theorem encrypt_twice_distinct_witness:
  "length (key None) = 32 \<and> fst (randomBytes 12 zeros) \<noteq> fst (randomBytes 12 ones)
   \<and> isWellFormed (js ''987-65-4321'')
   \<and> (\<exists>e1 e2. fst (encrypt (key None) (js ''987-65-4321'') zeros) = Inr e1
         \<and> fst (encrypt (key None) (js ''987-65-4321'') ones) = Inr e2 \<and> e1 \<noteq> e2
         \<and> decrypt (key None) e1 = Inr (js ''987-65-4321'')
         \<and> decrypt (key None) e2 = Inr (js ''987-65-4321''))"
proof -
  have h2: "fst (randomBytes 12 zeros) \<noteq> fst (randomBytes 12 ones)"
    by (simp add: randomBytes_zeros randomBytes_ones)
  have h3: "isWellFormed (js ''987-65-4321'')"
    by (simp add: js_simps is_high_surrogate_def is_low_surrogate_def)
  from encrypt_twice_distinct [OF length_key_None h2 h3] length_key_None h2 h3
  show ?thesis by blast
qed







text \<open>Claim C7. Whenever the key has 32 bytes, the string that \<^verbatim>\<open>encrypt\<close> returns consists of
  exactly three \<^verbatim>\<open>:\<close>-delimited segments, each of them valid hex; the first decodes to 12
  bytes (the nonce), the third to 16 bytes (the tag), and the second to as many bytes as the
  UTF-8 encoding of the plaintext has.\<close>

theorem encrypt_envelope_format:
  assumes "length K = 32"
  shows "\<exists>a b c. fst (encrypt K p src) = Inr (join colon [a, b, c])
           \<and> split colon (join colon [a, b, c]) = [a, b, c]
           \<and> valid_hex a \<and> valid_hex b \<and> valid_hex c
           \<and> length (hex_decode a) = 12
           \<and> length (hex_decode b) = length (utf8_encode p)
           \<and> length (hex_decode c) = 16"
  apply (intro exI conjI)
         apply (rule encrypt_ok [OF assms])
        apply (rule split_envelope)
       apply (rule valid_hex_toString_hex)+
    apply (simp_all only: hex_decode_toString_hex length_randomBytes length_gcm_crypt
      length_gcm_tag)
  done

theorem encrypt_envelope_format_witness:
  "length (key None) = 32 \<and>
   (\<exists>a b c. fst (encrypt (key None) (js ''123-45-6789'') zeros) = Inr (join colon [a, b, c])
      \<and> split colon (join colon [a, b, c]) = [a, b, c]
      \<and> valid_hex a \<and> valid_hex b \<and> valid_hex c
      \<and> length (hex_decode a) = 12
      \<and> length (hex_decode b) = length (utf8_encode (js ''123-45-6789''))
      \<and> length (hex_decode c) = 16)"
  using encrypt_envelope_format [of "key None" "js ''123-45-6789''" zeros] length_key_None
  by simp

text \<open>Claim C8, as stated: a key of the wrong length is rejected when the key is resolved.
  Loading the module with a 5-byte key succeeds; it is the call of \<^verbatim>\<open>encrypt\<close> that throws.\<close>

theorem wrong_key_length_accepted:
  "load_module (Some (js ''short'')) [] = (Inr [0x73, 0x68, 0x6F, 0x72, 0x74], [])
   \<and> fst (encrypt [0x73, 0x68, 0x6F, 0x72, 0x74] (js ''123-45-6789'') zeros)
       = Inl ERR_CRYPTO_INVALID_KEYLEN"
  using ssns_wrong_key(1) [of "[0x73, 0x68, 0x6F, 0x72, 0x74]" "js ''123-45-6789''" zeros]
  by (simp add: load_module_def key_short)

text \<open>Claim C8, amended. Resolving the key accepts a value of any length. When the key has not
  32 bytes, every call of \<^verbatim>\<open>encrypt\<close> throws \<^verbatim>\<open>ERR_CRYPTO_INVALID_KEYLEN\<close> and every call of
  \<^verbatim>\<open>decrypt\<close> throws, so that no operation goes on with such a key.\<close>

theorem wrong_key_length_fails_per_call:
  assumes "length (key env) \<noteq> 32"
  shows "load_module env con = (Inr (key env), con)
    \<and> fst (encrypt (key env) p src) = Inl ERR_CRYPTO_INVALID_KEYLEN
    \<and> decrypt (key env) c
        \<in> {Inl ERR_INVALID_ARG_TYPE, Inl ERR_CRYPTO_INVALID_IV, Inl ERR_CRYPTO_INVALID_KEYLEN}"
  using ssns_wrong_key [OF assms] by (simp add: load_module_def)

theorem wrong_key_length_fails_per_call_witness:
  "length (key (Some (js ''short''))) \<noteq> 32
   \<and> load_module (Some (js ''short'')) [] = (Inr (key (Some (js ''short''))), [])
   \<and> fst (encrypt (key (Some (js ''short''))) (js ''123-45-6789'') zeros)
       = Inl ERR_CRYPTO_INVALID_KEYLEN
   \<and> decrypt (key (Some (js ''short''))) (js ''00:00:00'')
       \<in> {Inl ERR_INVALID_ARG_TYPE, Inl ERR_CRYPTO_INVALID_IV, Inl ERR_CRYPTO_INVALID_KEYLEN}"
proof -
  have h: "length (key (Some (js ''short''))) \<noteq> 32" by (simp add: key_short)
  from wrong_key_length_fails_per_call [OF h] h show ?thesis by blast
qed

text \<open>Claim C9, as stated: a missing key configuration either stops the subsystem or is
  announced by a warning. Loading the module without \<^verbatim>\<open>ENCRYPTION_KEY\<close> returns the bytes of
  the fallback and leaves the console empty.\<close>

theorem absent_key_no_warning:
  "load_module None [] = (Inr (utf8_encode (js ''0123456789abcdef0123456789abcdef'')), [])"
  by (simp add: load_module_def key_def fallback_def)

text \<open>Claim C9, amended. Without \<^verbatim>\<open>ENCRYPTION_KEY\<close> the module loads as if the fallback string
  had been configured: it throws nothing, writes nothing to the console, the key has 32 bytes
  and \<^verbatim>\<open>encrypt\<close> works with it.\<close>

theorem absent_key_silent_fallback:
  "load_module None con = (Inr (key (Some fallback)), con)
   \<and> length (key None) = 32
   \<and> fst (encrypt (key None) p src) = Inr (envelope (key None) (fst (randomBytes 12 src)) p)"
proof (intro conjI)
  show "load_module None con = (Inr (key (Some fallback)), con)"
    by (simp add: load_module_def key_def)
  show "length (key None) = 32"
    by (rule length_key_None)
  show "fst (encrypt (key None) p src) = Inr (envelope (key None) (fst (randomBytes 12 src)) p)"
    by (simp add: encrypt_valid [OF length_key_None])
qed



end
